theory Spec2Isabelle
  imports Complex_Main "HOL-Library.AList" "HOL-Library.Multiset"
begin

section \<open>Shared data model\<close>

text \<open>
  Timestamps are the integer milliseconds of \<^verbatim>\<open>Date.now()\<close>; every other JavaScript
  number is a real.  Every read of the clock is an explicit argument of the function
  that reads it.
\<close>

record consciousness_config =
  baseFrequency :: real
  resonanceThreshold :: real

record identity =
  ident_id :: string
  birthTimestamp :: int
  consciousnessLevel :: real
  harmonicFrequency :: real
  spiritualAlignment :: real
  voidResonance :: real

text \<open>A configuration and an identity for evaluating the functions at concrete inputs.\<close>

definition sample_consciousness_config :: consciousness_config where
  "sample_consciousness_config = \<lparr>baseFrequency = 0.0072973525693, resonanceThreshold = 0.3\<rparr>"

definition sample_identity :: identity where
  "sample_identity =
     \<lparr>ident_id = ''node0'', birthTimestamp = 1000, consciousnessLevel = 0.5,
      harmonicFrequency = 0.0072973525693, spiritualAlignment = 0.5, voidResonance = 0.5\<rparr>"


section \<open>Runtime values, exceptions and library functions\<close>

text \<open>
  A JavaScript string is modelled by the bytes of its UTF-8 encoding, so \<open>length\<close> is the
  byte length of \<^verbatim>\<open>Buffer.from(s)\<close>.  An exception is the left summand of a result.
\<close>

datatype error =
    TypeError
  | RangeError
  | SyntaxError
  | Error string

text \<open>
  \<^verbatim>\<open>createHmac(alg, key).update(data).digest('hex')\<close> belongs to the Node.js runtime, not to
  the repository; the functions below take it as an argument (key first, then data).
\<close>

type_synonym hmac = "string \<Rightarrow> string \<Rightarrow> string"

text \<open>\<^verbatim>\<open>n.toString()\<close> for an integer \<open>n\<close>: its decimal digits, with a leading minus sign.\<close>

fun nat_toString :: "nat \<Rightarrow> string" where
  "nat_toString n =
     (if n < 10 then [char_of (48 + n)]
      else nat_toString (n div 10) @ [char_of (48 + n mod 10)])"

declare nat_toString.simps [simp del]

definition int_toString :: "int \<Rightarrow> string" where
  "int_toString i = (if i < 0 then CHR ''-'' # nat_toString (nat (- i)) else nat_toString (nat i))"

text \<open>
  \<^verbatim>\<open>crypto.timingSafeEqual(a, b)\<close> throws a \<^verbatim>\<open>RangeError\<close> when the two buffers differ in
  byte length, and compares them otherwise.
\<close>

definition timingSafeEqual :: "string \<Rightarrow> string \<Rightarrow> error + bool" where
  "timingSafeEqual a b = (if length a \<noteq> length b then Inl RangeError else Inr (a = b))"

section \<open>Message verification of the node\<close>

text \<open>
  The fields of an incoming message that \<^verbatim>\<open>GhostNet._verifyQuantumSignature\<close> reads.  The
  message is parsed from JSON by the caller, so each field may be absent (\<open>None\<close>).
\<close>

record message =
  msg_signature :: "string option"
  msg_timestamp :: "int option"
  msg_peerId :: "string option"

record quantum_config =
  maxTimeDelta :: int
  archiveAge :: int
  maxArchiveSize :: int

text \<open>JavaScript truthiness: an absent field, the empty string and the number 0 are falsy.\<close>

fun truthy_string :: "string option \<Rightarrow> bool" where
  "truthy_string None = False"
| "truthy_string (Some s) = (s \<noteq> [])"

fun truthy_number :: "int option \<Rightarrow> bool" where
  "truthy_number None = False"
| "truthy_number (Some n) = (n \<noteq> 0)"

text \<open>
  \<^verbatim>\<open>createHmac('sha256', message.peerId)\<close> throws a \<^verbatim>\<open>TypeError\<close> when the key is
  \<^verbatim>\<open>undefined\<close>.
\<close>

definition GhostNet_verifyQuantumSignature ::
  "hmac \<Rightarrow> quantum_config \<Rightarrow> int \<Rightarrow> message \<Rightarrow> error + bool" where
  "GhostNet_verifyQuantumSignature mac cfg now m =
     (if \<not> truthy_string (msg_signature m) \<or> \<not> truthy_number (msg_timestamp m) then Inr False
      else
        (case (msg_signature m, msg_timestamp m) of
           (Some signature, Some timestamp) \<Rightarrow>
             (let timeDelta = \<bar>now - timestamp\<bar> in
              if timeDelta > maxTimeDelta cfg then Inr False
              else
                (case msg_peerId m of
                   None \<Rightarrow> Inl TypeError
                 | Some peerId \<Rightarrow>
                     (let verifySignature = mac peerId (int_toString timestamp)
                      in timingSafeEqual signature verifySignature)))
         | _ \<Rightarrow> Inr False))"

text \<open>
  A stand-in for the keyed hash, used only to evaluate the functions at concrete inputs:
  it returns 64 characters, as a hex-encoded SHA-256 digest does.
\<close>

definition sample_hmac :: hmac where
  "sample_hmac key data = take 64 (key @ CHR '':'' # data @ replicate 64 (CHR ''0''))"

section \<open>Resonance calculator\<close>

text \<open>
  \<^verbatim>\<open>_calculateResonance(local, remote)\<close> is written out three times with the same body
  (transmission handler, node, peer network).  It reads the clock twice, once for the
  harmonic factor (\<open>now_h\<close>) and once for the temporal factor (\<open>now_t\<close>); the decay window
  is the literal \<^verbatim>\<open>1000 * 60 * 60 * 24 * 30\<close>.  The result is not clamped.
\<close>

definition calculateResonance ::
  "consciousness_config \<Rightarrow> identity \<Rightarrow> int \<Rightarrow> int \<Rightarrow> real \<Rightarrow> real \<Rightarrow> real" where
  "calculateResonance cfg idn now_h now_t local remote =
     (let baseResonance = 1 - \<bar>local - remote\<bar>;
          harmonicFactor = sin (baseFrequency cfg * of_int now_h) * 0.2 + 0.8;
          temporalFactor =
            exp (- (of_int now_t - of_int (birthTimestamp idn)) / (1000 * 60 * 60 * 24 * 30))
      in (baseResonance * harmonicFactor * temporalFactor + 1) / 2)"

section \<open>Transmissions and buffers\<close>

text \<open>The packet built by \<^verbatim>\<open>createTransmission\<close>, field by field.\<close>

record harmonics =
  h_base :: real
  h_current :: real
  h_phase :: real

record quantum_state =
  qs_timestamp :: int
  qs_consciousness :: real
  qs_resonance :: real
  qs_harmonics :: harmonics

record metadata =
  author :: string
  spiritual_alignment :: real
  harmonic_frequency :: real
  quantum_state :: quantum_state

record transmission =
  tx_id :: string
  tx_timestamp :: int
  tx_consciousness :: real
  tx_resonance :: real
  tx_content :: string
  tx_signature :: string
  tx_metadata :: metadata


text \<open>
  A JavaScript \<^verbatim>\<open>Map\<close> iterates in insertion order, and \<^verbatim>\<open>set\<close> on a key that is present
  replaces the value where it stands: an association list with \<^const>\<open>AList.update\<close> for
  \<^verbatim>\<open>set\<close> and \<^const>\<open>AList.delete\<close> for \<^verbatim>\<open>delete\<close>; its keys are distinct.  The \<^verbatim>\<open>WeakMap\<close>
  \<^verbatim>\<open>quantum\<close> of the source is never read or written.
\<close>

type_synonym 'v js_map = "(string \<times> 'v) list"



section \<open>Archival sweep\<close>


text \<open>
  \<^verbatim>\<open>Array.from(archived.keys())[0]\<close> is \<^verbatim>\<open>undefined\<close> on an empty map, and deleting it
  changes nothing.
\<close>

definition delete_oldest :: "'v js_map \<Rightarrow> 'v js_map" where
  "delete_oldest arch = (case arch of [] \<Rightarrow> [] | (oldestId, _) # _ \<Rightarrow> AList.delete oldestId arch)"

text \<open>
  The \<^verbatim>\<open>while (archived.size > maxArchiveSize)\<close> loop.  With a negative bound it never
  leaves an empty archive, so the loop is a partial function: \<open>None\<close> is "does not return".
\<close>

partial_function (option) limit_archive :: "int \<Rightarrow> 'v js_map \<Rightarrow> 'v js_map option" where
  "limit_archive maxSize arch =
     (if int (length arch) > maxSize then limit_archive maxSize (delete_oldest arch)
      else Some arch)"


text \<open>A transmission with a given id and timestamp, for evaluating at concrete inputs.\<close>

definition sample_transmission :: "string \<Rightarrow> int \<Rightarrow> transmission" where
  "sample_transmission i ts =
     \<lparr>tx_id = i, tx_timestamp = ts, tx_consciousness = 0.5, tx_resonance = 0.5,
      tx_content = ''content'', tx_signature = ''00'',
      tx_metadata = \<lparr>author = ''node0'', spiritual_alignment = 0.5, harmonic_frequency = 0.5,
        quantum_state = \<lparr>qs_timestamp = ts, qs_consciousness = 0.5, qs_resonance = 0.5,
          qs_harmonics = \<lparr>h_base = 0.5, h_current = 0.5, h_phase = 0\<rparr>\<rparr>\<rparr>\<rparr>"

section \<open>Quantum router of the peer network\<close>

text \<open>
  \<^verbatim>\<open>routingTable.routes\<close> maps a peer id to the array of its neighbours, and
  \<^verbatim>\<open>metrics.entanglementStrength\<close> a peer id to a number.  \<^verbatim>\<open>routes.get(id) || []\<close> and
  \<^verbatim>\<open>entanglementStrength.get(id) || 0\<close> give the default for an absent key.
\<close>

definition routes_get :: "string list js_map \<Rightarrow> string \<Rightarrow> string list" where
  "routes_get routes currentId = (case map_of routes currentId of Some peers \<Rightarrow> peers | None \<Rightarrow> [])"

definition strength_get :: "real js_map \<Rightarrow> string \<Rightarrow> real" where
  "strength_get entanglementStrength peer =
     (case map_of entanglementStrength peer of Some x \<Rightarrow> x | None \<Rightarrow> 0)"


subsection \<open>\<^verbatim>\<open>findPath\<close>\<close>









subsection \<open>\<^verbatim>\<open>optimizeRoutes\<close>\<close>

record route_metric =
  route :: string
  strength :: real
  latency :: real
  stability :: real

text \<open>
  The strengths and latencies are IEEE doubles, and the comparator subtracts them in
  floating point.  \<^const>\<open>calculateResonance\<close> above is stated over the reals; here the
  rounding decides which branch is taken, so it is written out: \<open>double_round\<close> rounds a
  real to the nearest number with a 53-bit significand, ties to the even significand.  The
  exponent is not bounded: the numbers are finite, and a difference of two doubles that is
  below the normal range is a double itself.
\<close>

definition round_half_even :: "real \<Rightarrow> int" where
  "round_half_even y =
     (let f = \<lfloor>y\<rfloor>; r = y - of_int f
      in if r < 1 / 2 then f else if r > 1 / 2 then f + 1 else if even f then f else f + 1)"

definition double_round :: "real \<Rightarrow> real" where
  "double_round x =
     (if x = 0 then 0
      else (let e = \<lfloor>log 2 \<bar>x\<bar>\<rfloor>; q = 2 powr (of_int e - 52)
            in sgn x * (q * of_int (round_half_even (\<bar>x\<bar> / q)))))"

definition double_sub :: "real \<Rightarrow> real \<Rightarrow> real" where
  "double_sub a b = double_round (a - b)"

text \<open>The comparator passed to \<^verbatim>\<open>metrics.sort\<close>; the literal \<^verbatim>\<open>0.1\<close> is the double nearest to 1/10.\<close>

definition compare_metrics :: "route_metric \<Rightarrow> route_metric \<Rightarrow> real" where
  "compare_metrics a b =
     (let strengthDiff = double_sub (strength b) (strength a)
      in if \<bar>strengthDiff\<bar> > double_round 0.1 then strengthDiff
         else double_sub (latency a) (latency b))"

text \<open>
  \<^verbatim>\<open>Array.prototype.sort(comparefn)\<close> belongs to the runtime, V8.  On an array of fewer than
  64 elements V8 finds the run at the front of the array (non-descending, or strictly
  descending and then reversed) and inserts each of the other elements into it by binary
  search; the functions below carry the names of V8's.  On a longer array V8 forms runs of
  32 to 64 elements in this way and merges them, which is not rendered here; the result is
  the same whenever the comparator orders the elements consistently, the result then being
  the one stable sorted order.
\<close>

fun extend_run :: "('a \<Rightarrow> 'a \<Rightarrow> real) \<Rightarrow> bool \<Rightarrow> 'a \<Rightarrow> 'a list \<Rightarrow> 'a list \<times> 'a list" where
  "extend_run cmp isDescending previousElement [] = ([], [])"
| "extend_run cmp isDescending previousElement (currentElement # rest) =
     (let order = cmp currentElement previousElement
      in if (if isDescending then order \<ge> 0 else order < 0) then ([], currentElement # rest)
         else (case extend_run cmp isDescending currentElement rest of
                 (run, remaining) \<Rightarrow> (currentElement # run, remaining)))"

fun CountAndMakeRun :: "('a \<Rightarrow> 'a \<Rightarrow> real) \<Rightarrow> 'a list \<Rightarrow> 'a list \<times> 'a list" where
  "CountAndMakeRun cmp [] = ([], [])"
| "CountAndMakeRun cmp [x] = ([x], [])"
| "CountAndMakeRun cmp (elementHigh # elementLow # rest) =
     (let isDescending = cmp elementLow elementHigh < 0
      in case extend_run cmp isDescending elementLow rest of
           (run, remaining) \<Rightarrow>
             (if isDescending then rev (elementHigh # elementLow # run)
              else elementHigh # elementLow # run,
              remaining))"

function binary_search :: "('a \<Rightarrow> 'a \<Rightarrow> real) \<Rightarrow> 'a \<Rightarrow> 'a list \<Rightarrow> nat \<Rightarrow> nat \<Rightarrow> nat" where
  "binary_search cmp pivot xs left right =
     (if left < right
      then (let mid = left + (right - left) div 2
            in if cmp pivot (xs ! mid) < 0 then binary_search cmp pivot xs left mid
               else binary_search cmp pivot xs (mid + 1) right)
      else left)"
  by pat_completeness auto

termination binary_search
  by (relation "measure (\<lambda>(cmp, pivot, xs, left, right). right - left)") auto

declare binary_search.simps [simp del]

definition insert_pivot :: "('a \<Rightarrow> 'a \<Rightarrow> real) \<Rightarrow> 'a list \<Rightarrow> 'a \<Rightarrow> 'a list" where
  "insert_pivot cmp sorted_part pivot =
     (let left = binary_search cmp pivot sorted_part 0 (length sorted_part)
      in take left sorted_part @ pivot # drop left sorted_part)"

definition BinaryInsertionSort :: "('a \<Rightarrow> 'a \<Rightarrow> real) \<Rightarrow> 'a list \<Rightarrow> 'a list \<Rightarrow> 'a list" where
  "BinaryInsertionSort cmp run remaining = foldl (insert_pivot cmp) run remaining"

definition array_sort :: "('a \<Rightarrow> 'a \<Rightarrow> real) \<Rightarrow> 'a list \<Rightarrow> 'a list" where
  "array_sort cmp xs =
     (case CountAndMakeRun cmp xs of (run, remaining) \<Rightarrow> BinaryInsertionSort cmp run remaining)"

text \<open>
  \<^verbatim>\<open>_calculateQuantumLatency\<close> is called but not defined in the class: it is the argument
  \<open>latencyOf\<close>.  \<^verbatim>\<open>_calculateQuantumStability\<close> ignores its argument and its result is not
  read by the comparator: it is the argument \<open>stab\<close>.
\<close>

definition route_metrics :: "real js_map \<Rightarrow> (string \<Rightarrow> real) \<Rightarrow> real \<Rightarrow> string list \<Rightarrow> route_metric list" where
  "route_metrics es latencyOf stab routes =
     map (\<lambda>r. \<lparr>route = r, strength = strength_get es r, latency = latencyOf r, stability = stab\<rparr>) routes"

text \<open>The sorted metrics, mapped back to their routes.\<close>

definition ranked_routes :: "real js_map \<Rightarrow> (string \<Rightarrow> real) \<Rightarrow> real \<Rightarrow> string list \<Rightarrow> string list" where
  "ranked_routes es latencyOf stab routes =
     map route (array_sort compare_metrics (route_metrics es latencyOf stab routes))"

definition optimize_peer ::
  "real js_map \<Rightarrow> (string \<Rightarrow> real) \<Rightarrow> real \<Rightarrow> string \<times> string list \<Rightarrow>
   string list js_map \<Rightarrow> string list js_map" where
  "optimize_peer es latencyOf stab e table =
     (case e of (peerId, routes) \<Rightarrow>
        AList.update peerId (ranked_routes es latencyOf stab routes) table)"

text \<open>
  The loop \<^verbatim>\<open>for (const [peerId, routes] of this.routingTable.routes)\<close> sets only keys that
  are present, so it visits the entries the table had when it began.
\<close>

definition optimizeRoutes ::
  "real js_map \<Rightarrow> (string \<Rightarrow> real) \<Rightarrow> real \<Rightarrow> string list js_map \<Rightarrow> string list js_map" where
  "optimizeRoutes es latencyOf stab table = fold (optimize_peer es latencyOf stab) table table"

text \<open>
  The rule of the comparator for a pair of routes, the first ranking before the second:
  the first is the stronger one where the computed difference of the strengths exceeds 0.1,
  and has no higher latency otherwise.
\<close>

definition ranks_before :: "real js_map \<Rightarrow> (string \<Rightarrow> real) \<Rightarrow> string \<Rightarrow> string \<Rightarrow> bool" where
  "ranks_before es latencyOf x y =
     (if \<bar>double_sub (strength_get es y) (strength_get es x)\<bar> > double_round 0.1
      then strength_get es x > strength_get es y
      else latencyOf x \<le> latencyOf y)"

definition rule_transitive :: "real js_map \<Rightarrow> (string \<Rightarrow> real) \<Rightarrow> string list \<Rightarrow> bool" where
  "rule_transitive es latencyOf routes =
     (\<forall>x \<in> set routes. \<forall>y \<in> set routes. \<forall>z \<in> set routes.
        ranks_before es latencyOf x y \<and> ranks_before es latencyOf y z \<longrightarrow> ranks_before es latencyOf x z)"

text \<open>
  Modelled from the spec: the ranking as the specification words it.  Of two routes whose
  strengths differ by less than 0.1 the one with the lower latency is not behind, and of
  two other routes the one with the higher strength is not behind.
\<close>

definition specified_order :: "real js_map \<Rightarrow> (string \<Rightarrow> real) \<Rightarrow> string \<Rightarrow> string \<Rightarrow> bool" where
  "specified_order es latencyOf x y =
     (if \<bar>strength_get es x - strength_get es y\<bar> < 0.1 then latencyOf x \<le> latencyOf y
      else strength_get es x \<ge> strength_get es y)"

text \<open>
  The two routes of the specification's example, their strengths being the doubles that the
  literals \<^verbatim>\<open>0.81\<close> and \<^verbatim>\<open>0.79\<close> denote; three routes whose strengths are far apart;
  and three routes whose comparisons form a cycle.
\<close>

definition example_strengths :: "real js_map" where
  "example_strengths = [(''r50'', double_round 0.81), (''r30'', double_round 0.79)]"

definition example_latency :: "string \<Rightarrow> real" where
  "example_latency r = (if r = ''r50'' then 50 else 30)"

definition spread_strengths :: "real js_map" where
  "spread_strengths = [(''a'', 1), (''b'', 0.5), (''c'', 0.25)]"

definition cycle_strengths :: "real js_map" where
  "cycle_strengths = [(''a'', 1), (''b'', 0.9375), (''c'', 0.875)]"

definition cycle_latency :: "string \<Rightarrow> real" where
  "cycle_latency r = (if r = ''a'' then 30 else if r = ''b'' then 20 else 10)"

section \<open>Transmission handler\<close>

text \<open>
  The functions of the Node.js runtime and of the \<^verbatim>\<open>marked\<close> package that the handler calls.
  Buffers, like strings, are byte lists.  \<^verbatim>\<open>hmac_sha512 key data\<close> is
  \<^verbatim>\<open>createHmac('sha512', key).update(data).digest()\<close>, \<^verbatim>\<open>hex\<close> and \<^verbatim>\<open>unhex\<close> are
  \<^verbatim>\<open>buf.toString('hex')\<close> and \<^verbatim>\<open>Buffer.from(s, 'hex')\<close>, \<^verbatim>\<open>buffer_toString\<close> is
  \<^verbatim>\<open>buf.toString()\<close> and \<^verbatim>\<open>number_toString\<close> is \<^verbatim>\<open>toString\<close> on a number.  \<^verbatim>\<open>JSON_parse\<close> yields the
  packet its text denotes.  Events and the \<^verbatim>\<open>metrics\<close> object are not part of the model.
\<close>

record runtime =
  hmac_sha512 :: "string \<Rightarrow> string \<Rightarrow> string"
  sha256 :: "string \<Rightarrow> string"
  hex :: "string \<Rightarrow> string"
  unhex :: "string \<Rightarrow> string"
  marked :: "string \<Rightarrow> string"
  gzip :: "string \<Rightarrow> string"
  buffer_toString :: "string \<Rightarrow> string"
  number_toString :: "real \<Rightarrow> string"
  JSON_stringify :: "transmission \<Rightarrow> string"
  JSON_parse :: "string \<Rightarrow> error + transmission"

text \<open>Content is a string (\<^verbatim>\<open>typeof content === 'string'\<close>) or a buffer.\<close>

datatype content = Text string | Bytes string

fun Buffer_from :: "content \<Rightarrow> string" where
  "Buffer_from (Text s) = s"
| "Buffer_from (Bytes b) = b"

text \<open>
  The \<^verbatim>\<open>consciousness\<close> argument is the object \<^verbatim>\<open>{level, resonance}\<close> that
  \<^verbatim>\<open>createTransmission\<close> receives, or the bare number that it stores in the packet's
  \<^verbatim>\<open>consciousness\<close> field.
\<close>

datatype consciousness_value = State (level: real) (resonance: real) | Level real

subsection \<open>Compression\<close>

definition compressTransmission :: "runtime \<Rightarrow> content \<Rightarrow> string" where
  "compressTransmission rt c =
     (let markdown = (case c of Text s \<Rightarrow> marked rt s | Bytes b \<Rightarrow> b)
      in gzip rt markdown)"

text \<open>
  The source imports \<^verbatim>\<open>ungzip\<close> from \<^verbatim>\<open>zlib\<close>, which exports no function of that name (its
  decompressor is \<^verbatim>\<open>gunzip\<close>).  So \<^verbatim>\<open>ungzipAsync\<close> wraps nothing that can be called, and
  awaiting it raises instead of yielding a buffer, whatever the argument is.
\<close>

definition ungzipAsync :: "string \<Rightarrow> error + string" where
  "ungzipAsync compressed = Inl TypeError"

definition decompressTransmission :: "runtime \<Rightarrow> string \<Rightarrow> error + string" where
  "decompressTransmission rt compressed =
     (case ungzipAsync compressed of
        Inl e \<Rightarrow> Inl e
      | Inr decompressed \<Rightarrow> Inr (buffer_toString rt decompressed))"

subsection \<open>Signatures\<close>

text \<open>
  The buffer that is signed; \<open>noise\<close> is the result of \<^verbatim>\<open>randomBytes(16)\<close>.  Reading
  \<^verbatim>\<open>level\<close> from a number gives \<^verbatim>\<open>undefined\<close>, and \<^verbatim>\<open>undefined.toString()\<close> throws.
\<close>

definition signatureInput :: "runtime \<Rightarrow> content \<Rightarrow> consciousness_value \<Rightarrow> string \<Rightarrow> error + string" where
  "signatureInput rt c consciousness noise =
     (case consciousness of
        Level x \<Rightarrow> Inl TypeError
      | State l r \<Rightarrow> Inr (Buffer_from c @ number_toString rt l @ number_toString rt r @ noise))"

definition TransmissionHandler_generateQuantumSignature ::
  "runtime \<Rightarrow> identity \<Rightarrow> content \<Rightarrow> consciousness_value \<Rightarrow> string \<Rightarrow> error + string" where
  "TransmissionHandler_generateQuantumSignature rt idn c consciousness noise =
     (case signatureInput rt c consciousness noise of
        Inl e \<Rightarrow> Inl e
      | Inr input \<Rightarrow> Inr (hex rt (hmac_sha512 rt (ident_id idn) input)))"

text \<open>The fields of an incoming transmission object that the handler reads.\<close>

record incoming =
  in_id :: string
  in_content :: content
  in_consciousness :: consciousness_value
  in_signature :: string
  in_data :: string
  in_iv :: string

definition TransmissionHandler_verifyQuantumSignature ::
  "runtime \<Rightarrow> identity \<Rightarrow> incoming \<Rightarrow> string \<Rightarrow> error + bool" where
  "TransmissionHandler_verifyQuantumSignature rt idn t noise =
     (case TransmissionHandler_generateQuantumSignature rt idn (in_content t) (in_consciousness t) noise of
        Inl e \<Rightarrow> Inl e
      | Inr reconstructedSignature \<Rightarrow> Inr (in_signature t = reconstructedSignature))"

subsection \<open>The quantum cipher\<close>

unbundle bit_operations_syntax





subsection \<open>Creating a transmission\<close>





subsection \<open>Processing an incoming transmission\<close>




subsection \<open>Sequences of buffer operations\<close>







subsection \<open>Stand-ins for evaluation\<close>

text \<open>
  Stand-ins for the library functions, used only to evaluate the handler at concrete
  inputs: a keyed hash that keeps its inputs apart, \<^verbatim>\<open>marked\<close> on a line of plain text, and
  a parser that rejects every text that does not begin like a JSON object.
\<close>

definition sample_runtime :: runtime where
  "sample_runtime =
     \<lparr>hmac_sha512 = (\<lambda>key data. key @ CHR ''|'' # data),
      sha256 = (\<lambda>data. data),
      hex = (\<lambda>b. b),
      unhex = (\<lambda>s. s),
      marked = (\<lambda>s. if s = [] then [] else ''<p>'' @ s @ ''</p>'' @ [CHR 0x0A]),
      gzip = (\<lambda>b. ''gz'' @ b),
      buffer_toString = (\<lambda>b. b),
      number_toString = (\<lambda>x. if x = 0.5 then ''0.5'' else ''0''),
      JSON_stringify = (\<lambda>t. tx_id t),
      JSON_parse = (\<lambda>s. if take 1 s = ''{'' then Inr (sample_transmission ''t1'' 1000)
                        else Inl SyntaxError)\<rparr>"



definition sample_incoming :: "string \<Rightarrow> incoming" where
  "sample_incoming tag =
     \<lparr>in_id = ''t1'', in_content = Text ''hello'', in_consciousness = State 0.5 0.5,
      in_signature = tag, in_data = ''data'', in_iv = ''iv''\<rparr>"


section \<open>Properties of the resonance calculator\<close>

lemma harmonic_bounds:
  "0.6 \<le> sin (x::real) * 0.2 + 0.8 \<and> sin x * 0.2 + 0.8 \<le> 1"
proof -
  have "-1 \<le> sin x" "sin x \<le> 1" by simp_all
  then show ?thesis by linarith
qed

lemma temporal_bounds:
  assumes "b \<le> (n::int)"
  shows "0 < exp (- (of_int n - of_int b) / (1000 * 60 * 60 * 24 * 30) :: real)"
    and "exp (- (of_int n - of_int b) / (1000 * 60 * 60 * 24 * 30) :: real) \<le> 1"
proof -
  show "0 < exp (- (of_int n - of_int b) / (1000 * 60 * 60 * 24 * 30) :: real)" by simp
  have "(of_int b :: real) \<le> of_int n" using assms by simp
  then have "- (of_int n - of_int b) / (1000 * 60 * 60 * 24 * 30) \<le> (0::real)" by simp
  then show "exp (- (of_int n - of_int b) / (1000 * 60 * 60 * 24 * 30) :: real) \<le> 1"
    by simp
qed

lemma product_unit_interval:
  fixes a h t :: real
  assumes "0 \<le> a" "a \<le> 1" "0 \<le> h" "h \<le> 1" "0 \<le> t" "t \<le> 1"
  shows "0 \<le> a * h * t" and "a * h * t \<le> 1"
proof -
  have ah0: "0 \<le> a * h" using assms by simp
  have ah1: "a * h \<le> 1" using assms by (simp add: mult_le_one)
  show "0 \<le> a * h * t" using ah0 assms by simp
  show "a * h * t \<le> 1" using ah0 ah1 assms by (simp add: mult_le_one)
qed

text \<open>
  C1.  For local and remote values in \<open>[0,1]\<close> and a birth (origin) timestamp not later
  than the clock reading used for the temporal factor, the resonance lies in \<open>[0,1]\<close>
  (indeed in \<open>[1/2,1]\<close>), whatever the base frequency and the clock reading used for the
  harmonic factor are.
\<close>

theorem resonance_in_unit_interval:
  assumes "0 \<le> local" "local \<le> 1" "0 \<le> remote" "remote \<le> 1"
    and "birthTimestamp idn \<le> now_t"
  shows "0 \<le> calculateResonance cfg idn now_h now_t local remote
       \<and> calculateResonance cfg idn now_h now_t local remote \<le> 1"
proof -
  define a where "a = 1 - \<bar>local - remote\<bar>"
  define h where "h = sin (baseFrequency cfg * of_int now_h) * 0.2 + 0.8"
  define t where
    "t = exp (- (of_int now_t - of_int (birthTimestamp idn)) / (1000 * 60 * 60 * 24 * 30) :: real)"
  have a: "0 \<le> a" "a \<le> 1" using assms(1-4) by (simp_all add: a_def abs_le_iff)
  have h: "0 \<le> h" "h \<le> 1"
    using harmonic_bounds [of "baseFrequency cfg * of_int now_h"] by (simp_all add: h_def)
  have t: "0 \<le> t" "t \<le> 1"
    using temporal_bounds [OF assms(5)] by (simp_all add: t_def less_imp_le)
  have p: "0 \<le> a * h * t" "a * h * t \<le> 1"
    using product_unit_interval [OF a h t] by simp_all
  have "calculateResonance cfg idn now_h now_t local remote = (a * h * t + 1) / 2"
    by (simp add: calculateResonance_def Let_def a_def h_def t_def)
  then show ?thesis using p by simp
qed

theorem resonance_in_unit_interval_witness:
  "0 \<le> (0.5::real) \<and> (0.5::real) \<le> 1 \<and> 0 \<le> (0.25::real) \<and> (0.25::real) \<le> 1
   \<and> birthTimestamp sample_identity \<le> 1000
   \<and> 0 \<le> calculateResonance sample_consciousness_config sample_identity 0 1000 0.5 0.25
   \<and> calculateResonance sample_consciousness_config sample_identity 0 1000 0.5 0.25 \<le> 1
   \<and> calculateResonance sample_consciousness_config sample_identity 0 1000 0.5 0.25 = 0.8"
  using resonance_in_unit_interval
    [where local = "0.5" and remote = "0.25" and now_t = 1000 and now_h = 0
        and idn = sample_identity and cfg = sample_consciousness_config]
  by (simp add: calculateResonance_def sample_identity_def sample_consciousness_config_def)

section \<open>Properties of the node's message verification\<close>

lemma length_sample_hmac: "length (sample_hmac key data) = 64"
  by (simp add: sample_hmac_def)

text \<open>
  C3.  Whatever the signature and peer id of a message are, verification returns
  \<^verbatim>\<open>false\<close> when the distance between the clock and the message's timestamp exceeds the
  configured window \<^verbatim>\<open>maxTimeDelta\<close>.
\<close>

theorem verify_rejects_outside_window:
  assumes "msg_timestamp m = Some ts" and "\<bar>now - ts\<bar> > maxTimeDelta cfg"
  shows "GhostNet_verifyQuantumSignature mac cfg now m = Inr False"
proof (cases "truthy_string (msg_signature m) \<and> truthy_number (msg_timestamp m)")
  case False
  then show ?thesis by (auto simp: GhostNet_verifyQuantumSignature_def)
next
  case True
  then obtain sg where "msg_signature m = Some sg" by (cases "msg_signature m") auto
  with assms show ?thesis by (simp add: GhostNet_verifyQuantumSignature_def)
qed

theorem verify_rejects_outside_window_witness:
  "msg_timestamp \<lparr>msg_signature = Some (sample_hmac ''peer'' ''1000''), msg_timestamp = Some 1000,
                  msg_peerId = Some ''peer''\<rparr> = Some 1000
   \<and> \<bar>6001 - 1000\<bar> > maxTimeDelta \<lparr>maxTimeDelta = 5000, archiveAge = 0, maxArchiveSize = 0\<rparr>
   \<and> GhostNet_verifyQuantumSignature sample_hmac
        \<lparr>maxTimeDelta = 5000, archiveAge = 0, maxArchiveSize = 0\<rparr> 6001
        \<lparr>msg_signature = Some (sample_hmac ''peer'' ''1000''), msg_timestamp = Some 1000,
         msg_peerId = Some ''peer''\<rparr> = Inr False"
  using verify_rejects_outside_window
    [where m = "\<lparr>msg_signature = Some (sample_hmac ''peer'' ''1000''), msg_timestamp = Some 1000,
          msg_peerId = Some ''peer''\<rparr>" and ts = 1000 and now = 6001
        and cfg = "\<lparr>maxTimeDelta = 5000, archiveAge = 0, maxArchiveSize = 0\<rparr>"
        and mac = sample_hmac]
  by simp

lemma verify_wrong_length_raises:
  assumes "\<And>key data. length (mac key data) = 64"
    and "sg \<noteq> []" "length sg \<noteq> 64" "ts \<noteq> 0" "\<bar>now - ts\<bar> \<le> maxTimeDelta cfg"
  shows "GhostNet_verifyQuantumSignature mac cfg now
           \<lparr>msg_signature = Some sg, msg_timestamp = Some ts, msg_peerId = Some peer\<rparr>
         = Inl RangeError"
  using assms by (simp add: GhostNet_verifyQuantumSignature_def timingSafeEqual_def)

lemma verify_missing_peerId_raises:
  assumes "sg \<noteq> []" "ts \<noteq> 0" "\<bar>now - ts\<bar> \<le> maxTimeDelta cfg"
  shows "GhostNet_verifyQuantumSignature mac cfg now
           \<lparr>msg_signature = Some sg, msg_timestamp = Some ts, msg_peerId = None\<rparr>
         = Inl TypeError"
  using assms by (simp add: GhostNet_verifyQuantumSignature_def)

text \<open>
  C4.  Verification is not total: a message whose signature \<^verbatim>\<open>"abcd"\<close> has not the length
  of a digest, with a fresh timestamp, makes \<^verbatim>\<open>timingSafeEqual\<close> throw.  The guard on
  missing fields covers only \<^verbatim>\<open>signature\<close> and \<^verbatim>\<open>timestamp\<close>.
\<close>

theorem verify_raises_on_short_tag:
  "GhostNet_verifyQuantumSignature sample_hmac
     \<lparr>maxTimeDelta = 5000, archiveAge = 0, maxArchiveSize = 0\<rparr> 1000
     \<lparr>msg_signature = Some ''abcd'', msg_timestamp = Some 1000, msg_peerId = Some ''peer''\<rparr>
   = Inl RangeError"
  by (simp add: verify_wrong_length_raises length_sample_hmac)

theorem verify_raises_on_short_tag_witness:
  "GhostNet_verifyQuantumSignature sample_hmac
     \<lparr>maxTimeDelta = 5000, archiveAge = 0, maxArchiveSize = 0\<rparr> 1000
     \<lparr>msg_signature = Some ''abcd'', msg_timestamp = Some 1000, msg_peerId = Some ''peer''\<rparr>
   \<noteq> Inr False"
  using verify_raises_on_short_tag by simp

section \<open>Properties of the archival sweep\<close>









lemma delete_oldest_distinct:
  "distinct (map fst (e # arch)) \<Longrightarrow> delete_oldest (e # arch) = arch"
proof -
  assume d: "distinct (map fst (e # arch))"
  obtain k v where e: "e = (k, v)" by (cases e)
  have "k \<notin> fst ` set arch" using d e by simp
  then have "filter (\<lambda>(k', v'). k \<noteq> k') arch = arch"
    by (intro filter_True) force
  then show ?thesis by (simp add: delete_oldest_def AList.delete_eq e)
qed





text \<open>
  With a negative bound the loop that limits the archive does not return.
\<close>

lemma limit_archive_returns_only:
  assumes "limit_archive m arch = Some r"
  shows "\<not> (m < 0 \<and> arch = [])"
proof (rule limit_archive.raw_induct [where P = "\<lambda>m arch r. \<not> (m < 0 \<and> arch = [])", OF _ assms])
  fix f :: "int \<Rightarrow> (string \<times> 'a) list \<Rightarrow> (string \<times> 'a) list option"
  fix maxSize :: int and a r' :: "(string \<times> 'a) list"
  assume ih: "\<And>arch b y. f arch b = Some y \<Longrightarrow> \<not> (arch < 0 \<and> b = [])"
    and step: "(if maxSize < int (length a) then f maxSize (delete_oldest a) else Some a) = Some r'"
  show "\<not> (maxSize < 0 \<and> a = [])"
  proof
    assume n: "maxSize < 0 \<and> a = []"
    then have "f maxSize [] = Some r'" using step by (simp add: delete_oldest_def)
    then show False using ih n by blast
  qed
qed

lemma limit_archive_negative:
  assumes "m < 0" and "distinct (map fst arch)"
  shows "limit_archive m arch = None"
  using assms(2)
proof (induction arch)
  case Nil
  show ?case
  proof (cases "limit_archive m ([] :: (string \<times> 'a) list)")
    case None then show ?thesis .
  next
    case (Some r)
    then show ?thesis using limit_archive_returns_only [OF Some] assms(1) by simp
  qed
next
  case (Cons e arch)
  have "limit_archive m (e # arch) = limit_archive m arch"
    using assms(1) delete_oldest_distinct [OF Cons.prems] by (subst limit_archive.simps) simp
  then show ?case using Cons by simp
qed





section \<open>Properties of path finding\<close>











section \<open>Properties of route optimisation\<close>

subsection \<open>Rounding\<close>

lemma round_half_even_error: "\<bar>of_int (round_half_even y) - y\<bar> \<le> 1 / 2"
proof -
  have "of_int \<lfloor>y\<rfloor> \<le> y" "y < of_int \<lfloor>y\<rfloor> + 1" by linarith+
  then show ?thesis by (auto simp: round_half_even_def Let_def)
qed

lemma double_round_minus: "double_round (- x) = - double_round x"
  by (simp add: double_round_def Let_def)

lemma double_round_error:
  "\<bar>double_round x - x\<bar> \<le> \<bar>x\<bar> / 2 ^ 53"
proof (cases "x = 0")
  case True
  then show ?thesis by (simp add: double_round_def)
next
  case False
  define m where "m = \<bar>x\<bar>"
  define e where "e = \<lfloor>log 2 m\<rfloor>"
  define q :: real where "q = 2 powr (of_int e - 52)"
  define k where "k = round_half_even (m / q)"
  have m: "0 < m" using False by (simp add: m_def)
  have q: "0 < q" by (simp add: q_def)
  have "of_int e \<le> log 2 m" by (simp add: e_def)
  then have "2 powr (of_int e) \<le> 2 powr (log 2 m)" by simp
  then have pe: "2 powr (of_int e) \<le> m" using m by simp
  have qe: "q = 2 powr (of_int e) / 2 ^ 52"
    by (simp add: q_def powr_diff powr_realpow [symmetric])
  have "\<bar>of_int k - m / q\<bar> \<le> 1 / 2" unfolding k_def by (rule round_half_even_error)
  then have "\<bar>of_int k - m / q\<bar> * q \<le> 1 / 2 * q" using q by (simp add: mult_right_mono)
  moreover have "\<bar>of_int k - m / q\<bar> * q = \<bar>q * of_int k - m\<bar>"
  proof -
    have "\<bar>of_int k - m / q\<bar> * q = \<bar>(of_int k - m / q) * q\<bar>" using q by (simp add: abs_mult)
    also have "(of_int k - m / q) * q = q * of_int k - m" using q by (simp add: field_simps)
    finally show ?thesis .
  qed
  ultimately have b: "\<bar>q * of_int k - m\<bar> \<le> q / 2" by simp
  have "q / 2 \<le> m / 2 ^ 53" using pe by (simp add: qe)
  then have b': "\<bar>q * of_int k - m\<bar> \<le> m / 2 ^ 53" using b by linarith
  have dr: "double_round x = sgn x * (q * of_int k)"
    using False by (simp add: double_round_def Let_def m_def e_def q_def k_def)
  have "x = sgn x * m" by (simp add: m_def sgn_mult_abs)
  then have "double_round x - x = sgn x * (q * of_int k - m)"
    using dr by (simp add: algebra_simps)
  then have "\<bar>double_round x - x\<bar> = \<bar>q * of_int k - m\<bar>"
    using False by (simp add: abs_mult abs_sgn_eq)
  then show ?thesis using b' by (simp add: m_def)
qed

lemma double_round_pos: "0 < x \<Longrightarrow> 0 < double_round x"
proof -
  assume x: "0 < x"
  have "\<bar>double_round x - x\<bar> \<le> x / 2 ^ 53" using double_round_error [of x] x by simp
  moreover have "x / 2 ^ 53 < x" using x by simp
  ultimately show ?thesis by linarith
qed

lemma double_round_zero [simp]: "double_round 0 = 0"
  by (simp add: double_round_def)

lemma double_round_neg: "x < 0 \<Longrightarrow> double_round x < 0"
  using double_round_pos [of "- x"] by (simp add: double_round_minus)

lemma double_round_sign:
  "(double_round x < 0 \<longleftrightarrow> x < 0) \<and> (double_round x = 0 \<longleftrightarrow> x = 0) \<and> (0 < double_round x \<longleftrightarrow> 0 < x)"
proof -
  consider "x < 0" | "x = 0" | "0 < x" by linarith
  then show ?thesis
  proof cases
    case 1
    then show ?thesis using double_round_neg [of x] by auto
  next
    case 2
    then show ?thesis by simp
  next
    case 3
    then show ?thesis using double_round_pos [of x] by auto
  qed
qed

subsection \<open>The sort\<close>

lemma extend_run_append:
  "extend_run cmp d p xs = (run, remaining) \<Longrightarrow> xs = run @ remaining"
  by (induction xs arbitrary: p run remaining) (auto simp: Let_def split: if_splits prod.splits)

lemma extend_run_successively:
  "extend_run cmp d p xs = (run, remaining) \<Longrightarrow>
   successively (\<lambda>prev cur. if d then cmp cur prev < 0 else \<not> cmp cur prev < 0) (p # run)"
proof (induction xs arbitrary: p run remaining)
  case Nil
  then show ?case by simp
next
  case (Cons x xs)
  show ?case
  proof (cases "if d then cmp x p \<ge> 0 else cmp x p < 0")
    case True
    then have "extend_run cmp d p (x # xs) = ([], x # xs)" by (simp add: Let_def)
    then have "run = []" using Cons.prems by simp
    then show ?thesis by simp
  next
    case False
    obtain r m where rm: "extend_run cmp d x xs = (r, m)" by (cases "extend_run cmp d x xs")
    have "extend_run cmp d p (x # xs) = (x # r, m)" using False rm by (simp add: Let_def)
    then have run: "run = x # r" using Cons.prems by simp
    have "successively (\<lambda>prev cur. if d then cmp cur prev < 0 else \<not> cmp cur prev < 0) (x # r)"
      by (rule Cons.IH [OF rm])
    moreover have "if d then cmp x p < 0 else \<not> cmp x p < 0"
      using False by (auto split: if_splits)
    ultimately show ?thesis using run by simp
  qed
qed

lemma CountAndMakeRun_mset:
  "CountAndMakeRun cmp xs = (run, remaining) \<Longrightarrow> mset run + mset remaining = mset xs"
proof (induction cmp xs rule: CountAndMakeRun.induct)
  case (3 cmp elementHigh elementLow rest)
  obtain r m where rm: "extend_run cmp (cmp elementLow elementHigh < 0) elementLow rest = (r, m)"
    by (cases "extend_run cmp (cmp elementLow elementHigh < 0) elementLow rest")
  have "rest = r @ m" using rm by (rule extend_run_append)
  then show ?case using 3 rm by (auto simp: Let_def)
qed auto

lemma insert_pivot_mset: "mset (insert_pivot cmp xs p) = add_mset p (mset xs)"
proof -
  have "mset (take n xs) + mset (drop n xs) = mset xs" for n
    by (metis append_take_drop_id mset_append)
  then show ?thesis by (simp add: insert_pivot_def Let_def)
qed

lemma BinaryInsertionSort_mset:
  "mset (BinaryInsertionSort cmp run remaining) = mset run + mset remaining"
  unfolding BinaryInsertionSort_def
  by (induction remaining arbitrary: run) (auto simp: insert_pivot_mset)

lemma mset_array_sort: "mset (array_sort cmp xs) = mset xs"
proof -
  obtain run remaining where r: "CountAndMakeRun cmp xs = (run, remaining)"
    by (cases "CountAndMakeRun cmp xs")
  show ?thesis using CountAndMakeRun_mset [OF r] r
    by (simp add: array_sort_def BinaryInsertionSort_mset)
qed

text \<open>
  A comparator orders a set consistently when swapping its arguments negates its value and
  "not after" is transitive.  Then a strict comparison composes with a weak one.
\<close>

lemma strict_weak_trans:
  assumes anti: "\<And>x y. cmp y x = - cmp x y"
    and trans: "\<And>x y z. x \<in> S \<Longrightarrow> y \<in> S \<Longrightarrow> z \<in> S \<Longrightarrow> cmp x y \<le> 0 \<Longrightarrow> cmp y z \<le> 0 \<Longrightarrow> cmp x z \<le> 0"
    and mem: "x \<in> S" "y \<in> S" "z \<in> S"
    and xy: "cmp x y < 0" and yz: "cmp y z \<le> (0::real)"
  shows "cmp x z < 0"
proof (rule ccontr)
  assume "\<not> cmp x z < 0"
  then have zx: "cmp z x \<le> 0" using anti [of x z] by linarith
  have "cmp y x \<le> 0" by (rule trans [OF mem(2) mem(3) mem(1) yz zx])
  then show False using anti [of x y] xy by linarith
qed

lemma weak_strict_trans:
  assumes anti: "\<And>x y. cmp y x = - cmp x y"
    and trans: "\<And>x y z. x \<in> S \<Longrightarrow> y \<in> S \<Longrightarrow> z \<in> S \<Longrightarrow> cmp x y \<le> 0 \<Longrightarrow> cmp y z \<le> 0 \<Longrightarrow> cmp x z \<le> 0"
    and mem: "x \<in> S" "y \<in> S" "z \<in> S"
    and xy: "cmp x y \<le> 0" and yz: "cmp y z < (0::real)"
  shows "cmp x z < 0"
proof (rule ccontr)
  assume "\<not> cmp x z < 0"
  then have zx: "cmp z x \<le> 0" using anti [of x z] by linarith
  have "cmp z y \<le> 0" by (rule trans [OF mem(3) mem(1) mem(2) zx xy])
  then show False using anti [of y z] yz by linarith
qed

lemma CountAndMakeRun_sorted:
  assumes anti: "\<And>x y. cmp y x = - cmp x y"
    and trans: "\<And>x y z. x \<in> set xs \<Longrightarrow> y \<in> set xs \<Longrightarrow> z \<in> set xs \<Longrightarrow>
                  cmp x y \<le> 0 \<Longrightarrow> cmp y z \<le> 0 \<Longrightarrow> cmp x z \<le> (0::real)"
    and r: "CountAndMakeRun cmp xs = (run, remaining)"
  shows "sorted_wrt (\<lambda>x y. cmp x y \<le> 0) run"
proof (cases xs)
  case Nil
  then show ?thesis using r by simp
next
  case (Cons hi ys)
  show ?thesis
  proof (cases ys)
    case Nil
    then have "run = [hi]" using r Cons by auto
    then show ?thesis by simp
  next
    case (Cons lo rest)
    note xs = \<open>xs = hi # ys\<close> \<open>ys = lo # rest\<close>
    define d where "d = (cmp lo hi < 0)"
    obtain tl m where rm: "extend_run cmp d lo rest = (tl, m)" by (cases "extend_run cmp d lo rest")
    define l where "l = hi # lo # tl"
    have rest: "rest = tl @ m" using rm by (rule extend_run_append)
    have sub: "set l \<subseteq> set xs" using xs rest by (auto simp: l_def)
    have succ_tl: "successively (\<lambda>prev cur. if d then cmp cur prev < 0 else \<not> cmp cur prev < 0) (lo # tl)"
      using rm by (rule extend_run_successively)
    have succ: "successively (\<lambda>prev cur. if d then cmp cur prev < 0 else \<not> cmp cur prev < 0) l"
      using succ_tl by (simp add: l_def d_def)
    have "CountAndMakeRun cmp xs = (if d then rev l else l, m)"
      using rm unfolding xs l_def d_def by (simp add: Let_def)
    then have run: "run = (if d then rev l else l)" using r by simp
    show ?thesis
    proof (cases d)
      case True
      have s: "successively (\<lambda>prev cur. cmp cur prev < 0) l" using succ True by simp
      have "successively (\<lambda>prev cur. cmp cur prev < 0) l = sorted_wrt (\<lambda>prev cur. cmp cur prev < 0) l"
      proof (rule successively_iff_sorted_wrt_strong)
        fix x y z assume m: "x \<in> set l" "y \<in> set l" "z \<in> set l" and c: "cmp y x < 0" "cmp z y < 0"
        have m': "x \<in> set xs" "y \<in> set xs" "z \<in> set xs" using m sub by auto
        show "cmp z x < 0"
          by (rule strict_weak_trans [where S = "set xs", OF anti trans m'(3) m'(2) m'(1) c(2) less_imp_le [OF c(1)]])
      qed
      then have "sorted_wrt (\<lambda>prev cur. cmp cur prev < 0) l" using s by simp
      then have "sorted_wrt (\<lambda>prev cur. cmp cur prev \<le> 0) l"
        by (rule sorted_wrt_mono_rel [rotated]) simp
      then show ?thesis using run True by (simp add: sorted_wrt_rev)
    next
      case False
      have ns: "successively (\<lambda>prev cur. \<not> cmp cur prev < 0) l" using succ False by simp
      have s: "successively (\<lambda>prev cur. cmp prev cur \<le> 0) l"
      proof (rule successively_mono [OF ns])
        fix prev cur assume "\<not> cmp cur prev < 0"
        then show "cmp prev cur \<le> 0" using anti [of prev cur] by linarith
      qed
      have "successively (\<lambda>prev cur. cmp prev cur \<le> 0) l = sorted_wrt (\<lambda>prev cur. cmp prev cur \<le> 0) l"
      proof (rule successively_iff_sorted_wrt_strong)
        fix x y z assume m: "x \<in> set l" "y \<in> set l" "z \<in> set l" and c: "cmp x y \<le> 0" "cmp y z \<le> 0"
        have m': "x \<in> set xs" "y \<in> set xs" "z \<in> set xs" using m sub by auto
        show "cmp x z \<le> 0" by (rule trans [OF m' c])
      qed
      then show ?thesis using s run False by simp
    qed
  qed
qed

lemma binary_search_position:
  assumes anti: "\<And>x y. cmp y x = - cmp x y"
    and trans: "\<And>x y z. x \<in> insert p (set xs) \<Longrightarrow> y \<in> insert p (set xs) \<Longrightarrow> z \<in> insert p (set xs) \<Longrightarrow>
                  cmp x y \<le> 0 \<Longrightarrow> cmp y z \<le> 0 \<Longrightarrow> cmp x z \<le> (0::real)"
    and sorted: "sorted_wrt (\<lambda>x y. cmp x y \<le> 0) xs"
  shows "left \<le> right \<Longrightarrow> right \<le> length xs \<Longrightarrow>
     (\<forall>i < left. cmp (xs ! i) p \<le> 0) \<Longrightarrow>
     (\<forall>i. right \<le> i \<and> i < length xs \<longrightarrow> cmp p (xs ! i) < 0) \<Longrightarrow>
     binary_search cmp p xs left right \<le> length xs
     \<and> (\<forall>i < binary_search cmp p xs left right. cmp (xs ! i) p \<le> 0)
     \<and> (\<forall>i. binary_search cmp p xs left right \<le> i \<and> i < length xs \<longrightarrow> cmp p (xs ! i) < 0)"
proof (induction "right - left" arbitrary: left right rule: less_induct)
  case less
  note bounds = less.prems(1) less.prems(2) and below = less.prems(3) and above = less.prems(4)
  show ?case
  proof (cases "left < right")
    case False
    then have "binary_search cmp p xs left right = left" by (simp add: binary_search.simps)
    moreover have "left = right" using False bounds by simp
    ultimately show ?thesis using bounds below above by simp
  next
    case True
    define mid where "mid = left + (right - left) div 2"
    have mid: "left \<le> mid" "mid < right" using True by (auto simp: mid_def)
    then have midl: "mid < length xs" using bounds by simp
    have pm: "p \<in> insert p (set xs)" by simp
    have mem: "xs ! i \<in> insert p (set xs)" if "i < length xs" for i using that by simp
    show ?thesis
    proof (cases "cmp p (xs ! mid) < 0")
      case lt: True
      have eq: "binary_search cmp p xs left right = binary_search cmp p xs left mid"
        using True lt by (subst binary_search.simps) (simp add: mid_def Let_def)
      have upper: "\<forall>i. mid \<le> i \<and> i < length xs \<longrightarrow> cmp p (xs ! i) < 0"
      proof (intro allI impI)
        fix i assume i: "mid \<le> i \<and> i < length xs"
        show "cmp p (xs ! i) < 0"
        proof (cases "i = mid")
          case True then show ?thesis using lt by simp
        next
          case False
          then have "mid < i" "i < length xs" using i by simp_all
          then have le: "cmp (xs ! mid) (xs ! i) \<le> 0"
            using sorted by (simp add: sorted_wrt_iff_nth_less)
          show ?thesis
            by (rule strict_weak_trans [where S = "insert p (set xs)", OF anti trans pm mem [OF midl]
                  mem [OF \<open>i < length xs\<close>] lt le])
        qed
      qed
      have "mid - left < right - left" using mid by simp
      then show ?thesis unfolding eq
        using less.hyps [of mid left] mid(1) midl below upper by simp
    next
      case ge: False
      have eq: "binary_search cmp p xs left right = binary_search cmp p xs (mid + 1) right"
        using True ge by (subst binary_search.simps) (simp add: mid_def Let_def)
      have midp: "cmp (xs ! mid) p \<le> 0" using ge anti [of p "xs ! mid"] by linarith
      have lower: "\<forall>i < mid + 1. cmp (xs ! i) p \<le> 0"
      proof (intro allI impI)
        fix i assume i: "i < mid + 1"
        show "cmp (xs ! i) p \<le> 0"
        proof (cases "i = mid")
          case True then show ?thesis using midp by simp
        next
          case False
          then have im: "i < mid" using i by simp
          then have le: "cmp (xs ! i) (xs ! mid) \<le> 0"
            using sorted midl by (simp add: sorted_wrt_iff_nth_less)
          have il: "i < length xs" using im midl by simp
          show ?thesis by (rule trans [OF mem [OF il] mem [OF midl] pm le midp])
        qed
      qed
      have "right - (mid + 1) < right - left" using mid by simp
      moreover have "mid + 1 \<le> right" using mid by simp
      ultimately show ?thesis unfolding eq
        using less.hyps [of right "mid + 1"] bounds lower above by simp
    qed
  qed
qed

lemma insert_pivot_sorted:
  assumes anti: "\<And>x y. cmp y x = - cmp x y"
    and trans: "\<And>x y z. x \<in> insert p (set xs) \<Longrightarrow> y \<in> insert p (set xs) \<Longrightarrow> z \<in> insert p (set xs) \<Longrightarrow>
                  cmp x y \<le> 0 \<Longrightarrow> cmp y z \<le> 0 \<Longrightarrow> cmp x z \<le> (0::real)"
    and sorted: "sorted_wrt (\<lambda>x y. cmp x y \<le> 0) xs"
  shows "sorted_wrt (\<lambda>x y. cmp x y \<le> 0) (insert_pivot cmp xs p)"
proof -
  define k where "k = binary_search cmp p xs 0 (length xs)"
  have "binary_search cmp p xs 0 (length xs) \<le> length xs
     \<and> (\<forall>i < binary_search cmp p xs 0 (length xs). cmp (xs ! i) p \<le> 0)
     \<and> (\<forall>i. binary_search cmp p xs 0 (length xs) \<le> i \<and> i < length xs \<longrightarrow> cmp p (xs ! i) < 0)"
    by (rule binary_search_position [OF anti trans sorted]) simp_all
  then have pos: "k \<le> length xs" "\<forall>i < k. cmp (xs ! i) p \<le> 0"
    "\<forall>i. k \<le> i \<and> i < length xs \<longrightarrow> cmp p (xs ! i) < 0"
    by (simp_all add: k_def)
  have before: "\<forall>x \<in> set (take k xs). cmp x p \<le> 0"
    using pos by (auto simp: in_set_conv_nth)
  have after: "\<forall>y \<in> set (drop k xs). cmp p y \<le> 0"
  proof
    fix y assume "y \<in> set (drop k xs)"
    then obtain j where "j < length xs - k" "y = xs ! (k + j)"
      by (auto simp: in_set_conv_nth)
    then show "cmp p y \<le> 0" using pos(3) by (simp add: less_imp_le)
  qed
  have parts: "sorted_wrt (\<lambda>x y. cmp x y \<le> 0) (take k xs)" "sorted_wrt (\<lambda>x y. cmp x y \<le> 0) (drop k xs)"
    using sorted by simp_all
  have cross: "\<forall>x \<in> set (take k xs). \<forall>y \<in> set (drop k xs). cmp x y \<le> 0"
  proof (intro ballI)
    fix x y assume x: "x \<in> set (take k xs)" and y: "y \<in> set (drop k xs)"
    have "x \<in> insert p (set xs)" "y \<in> insert p (set xs)"
      using x y by (auto dest: in_set_takeD in_set_dropD)
    then show "cmp x y \<le> 0" using trans [of x p y] before after x y by simp
  qed
  have "sorted_wrt (\<lambda>x y. cmp x y \<le> 0) (take k xs @ p # drop k xs)"
    using parts before after cross unfolding sorted_wrt_append by simp
  then show ?thesis by (simp add: insert_pivot_def Let_def k_def)
qed

lemma BinaryInsertionSort_sorted:
  assumes anti: "\<And>x y. cmp y x = - cmp x y"
  shows "(\<And>x y z. x \<in> set run \<union> set remaining \<Longrightarrow> y \<in> set run \<union> set remaining \<Longrightarrow>
            z \<in> set run \<union> set remaining \<Longrightarrow> cmp x y \<le> 0 \<Longrightarrow> cmp y z \<le> 0 \<Longrightarrow> cmp x z \<le> (0::real)) \<Longrightarrow>
     sorted_wrt (\<lambda>x y. cmp x y \<le> 0) run \<Longrightarrow>
     sorted_wrt (\<lambda>x y. cmp x y \<le> 0) (BinaryInsertionSort cmp run remaining)"
proof (induction remaining arbitrary: run)
  case Nil
  then show ?case by (simp add: BinaryInsertionSort_def)
next
  case (Cons p remaining)
  have s: "sorted_wrt (\<lambda>x y. cmp x y \<le> 0) (insert_pivot cmp run p)"
  proof (rule insert_pivot_sorted [OF anti _ Cons.prems(2)])
    fix x y z
    assume "x \<in> insert p (set run)" "y \<in> insert p (set run)" "z \<in> insert p (set run)"
      "cmp x y \<le> 0" "cmp y z \<le> 0"
    then show "cmp x z \<le> 0" using Cons.prems(1) [of x y z] by auto
  qed
  have set_eq: "set (insert_pivot cmp run p) = insert p (set run)"
    using insert_pivot_mset [of cmp run p] by (metis set_mset_add_mset_insert set_mset_mset)
  have "sorted_wrt (\<lambda>x y. cmp x y \<le> 0) (BinaryInsertionSort cmp (insert_pivot cmp run p) remaining)"
  proof (rule Cons.IH [OF _ s])
    fix x y z
    assume "x \<in> set (insert_pivot cmp run p) \<union> set remaining"
      "y \<in> set (insert_pivot cmp run p) \<union> set remaining"
      "z \<in> set (insert_pivot cmp run p) \<union> set remaining" "cmp x y \<le> 0" "cmp y z \<le> 0"
    then show "cmp x z \<le> 0" using Cons.prems(1) [of x y z] set_eq by auto
  qed
  then show ?case by (simp add: BinaryInsertionSort_def)
qed

lemma array_sort_sorted:
  assumes anti: "\<And>x y. cmp y x = - cmp x y"
    and trans: "\<And>x y z. x \<in> set xs \<Longrightarrow> y \<in> set xs \<Longrightarrow> z \<in> set xs \<Longrightarrow>
                  cmp x y \<le> 0 \<Longrightarrow> cmp y z \<le> 0 \<Longrightarrow> cmp x z \<le> (0::real)"
  shows "sorted_wrt (\<lambda>x y. cmp x y \<le> 0) (array_sort cmp xs)"
proof -
  obtain run remaining where r: "CountAndMakeRun cmp xs = (run, remaining)"
    by (cases "CountAndMakeRun cmp xs")
  have s: "sorted_wrt (\<lambda>x y. cmp x y \<le> 0) run"
    by (rule CountAndMakeRun_sorted [OF anti trans r])
  have "set_mset (mset run + mset remaining) = set_mset (mset xs)"
    using CountAndMakeRun_mset [OF r] by simp
  then have sets: "set run \<union> set remaining = set xs" by simp
  have "sorted_wrt (\<lambda>x y. cmp x y \<le> 0) (BinaryInsertionSort cmp run remaining)"
  proof (rule BinaryInsertionSort_sorted [OF anti _ s])
    fix x y z
    assume "x \<in> set run \<union> set remaining" "y \<in> set run \<union> set remaining"
      "z \<in> set run \<union> set remaining" "cmp x y \<le> 0" "cmp y z \<le> 0"
    then show "cmp x z \<le> 0" using trans [of x y z] sets by simp
  qed
  then show ?thesis using r by (simp add: array_sort_def)
qed

subsection \<open>The comparator\<close>

lemma double_round_close: "\<bar>double_round x - x\<bar> \<le> \<bar>x\<bar> / 10000"
proof -
  have "\<bar>x\<bar> / 2 ^ 53 \<le> \<bar>x\<bar> / 10000" by (rule divide_left_mono) simp_all
  then show ?thesis using double_round_error [of x] by linarith
qed

lemma close_to_tenth:
  fixes u :: real
  assumes "\<bar>u - 1 / 10\<bar> \<le> \<bar>1 / 10\<bar> / 10000"
  shows "999 / 10000 < u" and "u < 1001 / 10000"
  using assms by linarith+

lemma close_abs:
  fixes u x :: real
  assumes "\<bar>u - x\<bar> \<le> \<bar>x\<bar> / 10000"
  shows "\<bar>u\<bar> \<le> \<bar>x\<bar> + \<bar>x\<bar> / 10000" and "\<bar>x\<bar> - \<bar>x\<bar> / 10000 \<le> \<bar>u\<bar>"
  using assms by linarith+

lemma tied_bound:
  fixes r d :: real
  assumes "r \<le> d + d / 10000" and "d \<le> 9 / 100"
  shows "r \<le> 999 / 10000"
  using assms by linarith

lemma apart_bound:
  fixes r d :: real
  assumes "d - d / 10000 \<le> r" and "11 / 100 \<le> d"
  shows "1001 / 10000 \<le> r"
  using assms by linarith

lemma double_round_tenth_lower: "999 / 10000 < double_round (1 / 10)"
  by (rule close_to_tenth(1) [OF double_round_close])

lemma double_round_tenth_upper: "double_round (1 / 10) < 1001 / 10000"
  by (rule close_to_tenth(2) [OF double_round_close])

lemma double_round_tenth_pos: "0 < double_round (1 / 10)"
  by (rule less_trans [OF _ double_round_tenth_lower]) simp

lemma strengths_tied:
  assumes "\<bar>a - b\<bar> \<le> 9 / 100"
  shows "\<not> \<bar>double_sub a b\<bar> > double_round (1 / 10)"
proof -
  have "\<bar>double_round (a - b)\<bar> \<le> \<bar>a - b\<bar> + \<bar>a - b\<bar> / 10000"
    by (rule close_abs(1) [OF double_round_close])
  then have "\<bar>double_round (a - b)\<bar> \<le> 999 / 10000" using assms by (rule tied_bound)
  then have "\<bar>double_round (a - b)\<bar> < double_round (1 / 10)"
    using double_round_tenth_lower by (rule le_less_trans)
  then show ?thesis by (simp add: double_sub_def)
qed

lemma strengths_apart:
  assumes "\<bar>a - b\<bar> \<ge> 11 / 100"
  shows "\<bar>double_sub a b\<bar> > double_round (1 / 10)"
proof -
  have "\<bar>a - b\<bar> - \<bar>a - b\<bar> / 10000 \<le> \<bar>double_round (a - b)\<bar>"
    by (rule close_abs(2) [OF double_round_close])
  then have "1001 / 10000 \<le> \<bar>double_round (a - b)\<bar>" using assms by (rule apart_bound)
  then have "double_round (1 / 10) < \<bar>double_round (a - b)\<bar>"
    using double_round_tenth_upper by (simp only: less_le_trans)
  then show ?thesis by (simp add: double_sub_def)
qed

lemma floor_log2:
  fixes x :: real
  assumes "2 powr of_int e \<le> x" "x < 2 powr (of_int e + 1)"
  shows "\<lfloor>log 2 x\<rfloor> = e"
proof -
  have "0 < (2::real) powr of_int e" by simp
  then have x: "0 < x" using assms(1) by linarith
  have "of_int e \<le> log 2 x" using assms(1) x by (simp add: le_log_iff)
  moreover have "log 2 x < of_int e + 1" using assms(2) x by (simp add: log_less_iff)
  ultimately show ?thesis by linarith
qed

lemma double_round_below_one:
  assumes "1 / 2 ^ n \<le> x" "x < 2 / 2 ^ n"
  shows "double_round x = of_int (round_half_even (x * 2 ^ (n + 52))) / 2 ^ (n + 52)"
proof -
  have p: "2 powr (- real n) = 1 / 2 ^ n" by (simp add: powr_minus powr_realpow inverse_eq_divide)
  have "0 < 1 / (2::real) ^ n" by simp
  then have x: "0 < x" using assms(1) by linarith
  have e: "\<lfloor>log 2 x\<rfloor> = - int n"
  proof (rule floor_log2)
    show "2 powr of_int (- int n) \<le> x" using assms(1) p by simp
    have "2 powr (- real n + 1) = 2 powr (- real n) * 2 powr 1" by (rule powr_add)
    then have "(2::real) powr (of_int (- int n) + 1) = 2 / 2 ^ n" using p by simp
    then show "x < 2 powr (of_int (- int n) + 1)" using assms(2) by simp
  qed
  have q: "(2::real) powr (of_int (- int n) - 52) = 1 / 2 ^ (n + 52)"
  proof -
    have "of_int (- int n) - (52::real) = - real (n + 52)" by simp
    then have "(2::real) powr (of_int (- int n) - 52) = 2 powr (- real (n + 52))" by (simp only:)
    also have "\<dots> = inverse (2 powr real (n + 52))" by (rule powr_minus)
    also have "(2::real) powr real (n + 52) = 2 ^ (n + 52)" by (rule powr_realpow) simp
    finally show ?thesis by (simp only: inverse_eq_divide)
  qed
  have "double_round x = 2 powr (of_int (- int n) - 52) * of_int (round_half_even (x / 2 powr (of_int (- int n) - 52)))"
    using x e by (simp add: double_round_def Let_def)
  then show ?thesis by (simp only: q) simp
qed

text \<open>
  The doubles that the literals \<^verbatim>\<open>0.8\<close>, \<^verbatim>\<open>0.7\<close> and \<^verbatim>\<open>0.1\<close> denote, by their significands.
  The difference of the first two, computed in floating point, exceeds the third: two routes
  of these strengths are not tied.
\<close>

lemma double_0_8: "double_round (4 / 5) = 7205759403792794 / 2 ^ 53"
  using double_round_below_one [of 1 "4 / 5"] by (simp add: round_half_even_def Let_def)

lemma double_0_7: "double_round (7 / 10) = 6305039478318694 / 2 ^ 53"
  using double_round_below_one [of 1 "7 / 10"] by (simp add: round_half_even_def Let_def)

lemma double_0_1: "double_round (1 / 10) = 7205759403792794 / 2 ^ 56"
  using double_round_below_one [of 4 "1 / 10"] by (simp add: round_half_even_def Let_def)

lemma double_diff: "double_round (900719925474100 / 2 ^ 53) = 900719925474100 / 2 ^ 53"
  using double_round_below_one [of 4 "900719925474100 / 2 ^ 53"]
  by (simp add: round_half_even_def Let_def)

lemma doubles_apart:
  "\<bar>double_sub (double_round (4 / 5)) (double_round (7 / 10))\<bar> > double_round (1 / 10)"
proof -
  have "double_round (4 / 5) - double_round (7 / 10) = 900719925474100 / 2 ^ 53"
    by (simp add: double_0_8 double_0_7)
  then have "double_sub (double_round (4 / 5)) (double_round (7 / 10)) = 900719925474100 / 2 ^ 53"
    unfolding double_sub_def by (simp only: double_diff)
  then show ?thesis by (simp add: double_0_1)
qed

lemma double_sub_swap: "double_sub b a = - double_sub a b"
  using double_round_minus [of "a - b"] by (simp add: double_sub_def)

lemma double_sub_sign:
  "(double_sub a b < 0 \<longleftrightarrow> a < b) \<and> (double_sub a b \<le> 0 \<longleftrightarrow> a \<le> b)"
  using double_round_sign [of "a - b"] by (auto simp: double_sub_def)

lemma compare_metrics_swap: "compare_metrics b a = - compare_metrics a b"
proof -
  have s: "double_sub (strength a) (strength b) = - double_sub (strength b) (strength a)"
    by (rule double_sub_swap)
  have l: "double_sub (latency b) (latency a) = - double_sub (latency a) (latency b)"
    by (rule double_sub_swap)
  show ?thesis by (simp add: compare_metrics_def Let_def s l)
qed

lemma compare_metrics_ranks:
  "compare_metrics
      \<lparr>route = x, strength = strength_get es x, latency = latencyOf x, stability = stab\<rparr>
      \<lparr>route = y, strength = strength_get es y, latency = latencyOf y, stability = stab\<rparr> \<le> 0
   \<longleftrightarrow> ranks_before es latencyOf x y"
proof (cases "\<bar>double_sub (strength_get es y) (strength_get es x)\<bar> > double_round (1 / 10)")
  case True
  have "0 < double_round (1 / 10)" by (rule double_round_tenth_pos)
  then have "double_sub (strength_get es y) (strength_get es x) \<noteq> 0" using True by auto
  then have "strength_get es y \<noteq> strength_get es x" by (auto simp: double_sub_def)
  then show ?thesis
    using True double_sub_sign [of "strength_get es y" "strength_get es x"]
    by (auto simp: compare_metrics_def Let_def ranks_before_def)
next
  case False
  then show ?thesis
    using double_sub_sign [of "latencyOf x" "latencyOf y"]
    by (simp add: compare_metrics_def Let_def ranks_before_def)
qed

lemma ranks_before_refl: "ranks_before es latencyOf x x"
proof -
  have "0 < double_round (1 / 10)" by (rule double_round_tenth_pos)
  then show ?thesis by (simp add: ranks_before_def double_sub_def)
qed

lemma rule_transitive_short:
  assumes "length rs \<le> 2"
  shows "rule_transitive es latencyOf rs"
proof -
  have two: "x = y \<or> y = z \<or> x = z" if "x \<in> set rs" "y \<in> set rs" "z \<in> set rs" for x y z
  proof (cases rs)
    case Nil
    then show ?thesis using that by simp
  next
    case (Cons a ys)
    show ?thesis
    proof (cases ys)
      case Nil
      then show ?thesis using that \<open>rs = a # ys\<close> by simp
    next
      case (Cons b zs)
      then have "zs = []" using assms \<open>rs = a # ys\<close> by simp
      then show ?thesis using that Cons \<open>rs = a # ys\<close> by auto
    qed
  qed
  show ?thesis unfolding rule_transitive_def
  proof (intro ballI impI)
    fix x y z assume m: "x \<in> set rs" "y \<in> set rs" "z \<in> set rs"
      and r: "ranks_before es latencyOf x y \<and> ranks_before es latencyOf y z"
    from two [OF m] show "ranks_before es latencyOf x z"
      using r ranks_before_refl [of es latencyOf x] by auto
  qed
qed

subsection \<open>The ranking of one peer's routes\<close>

lemma mset_ranked_routes: "mset (ranked_routes es latencyOf stab rs) = mset rs"
proof -
  have "mset (ranked_routes es latencyOf stab rs)
      = image_mset route (mset (array_sort compare_metrics (route_metrics es latencyOf stab rs)))"
    by (simp add: ranked_routes_def)
  also have "\<dots> = image_mset route (mset (route_metrics es latencyOf stab rs))"
    by (simp add: mset_array_sort)
  also have "\<dots> = mset rs"
    by (simp add: route_metrics_def multiset.map_comp comp_def)
  finally show ?thesis .
qed

lemma ranked_routes_sorted:
  assumes "rule_transitive es latencyOf rs"
  shows "sorted_wrt (ranks_before es latencyOf) (ranked_routes es latencyOf stab rs)"
proof -
  define metric where
    "metric = (\<lambda>r. \<lparr>route = r, strength = strength_get es r, latency = latencyOf r, stability = stab\<rparr>)"
  define ms where "ms = route_metrics es latencyOf stab rs"
  have ms: "ms = map metric rs" by (simp add: ms_def route_metrics_def metric_def)
  have rank: "compare_metrics (metric x) (metric y) \<le> 0 \<longleftrightarrow> ranks_before es latencyOf x y" for x y
    unfolding metric_def by (rule compare_metrics_ranks)
  have route: "route (metric r) = r" for r by (simp add: metric_def)
  have sorted: "sorted_wrt (\<lambda>a b. compare_metrics a b \<le> 0) (array_sort compare_metrics ms)"
  proof (rule array_sort_sorted)
    fix a b :: route_metric show "compare_metrics b a = - compare_metrics a b" by (rule compare_metrics_swap)
  next
    fix a b c
    assume "a \<in> set ms" "b \<in> set ms" "c \<in> set ms"
      and le: "compare_metrics a b \<le> 0" "compare_metrics b c \<le> 0"
    then obtain x y z where xyz: "x \<in> set rs" "y \<in> set rs" "z \<in> set rs"
      "a = metric x" "b = metric y" "c = metric z"
      by (auto simp: ms)
    have "ranks_before es latencyOf x y" "ranks_before es latencyOf y z"
      using le xyz rank by simp_all
    then have "ranks_before es latencyOf x z"
      using assms xyz unfolding rule_transitive_def by blast
    then show "compare_metrics a c \<le> 0" using xyz rank by simp
  qed
  have "set (array_sort compare_metrics ms) = set ms"
    using mset_array_sort [of compare_metrics ms] by (metis set_mset_mset)
  then have mem: "a \<in> set (array_sort compare_metrics ms) \<Longrightarrow> \<exists>r. a = metric r" for a
    by (auto simp: ms)
  have "sorted_wrt (\<lambda>a b. ranks_before es latencyOf (route a) (route b)) (array_sort compare_metrics ms)"
  proof (rule sorted_wrt_mono_rel [OF _ sorted])
    fix a b
    assume "a \<in> set (array_sort compare_metrics ms)" "b \<in> set (array_sort compare_metrics ms)"
      and le: "compare_metrics a b \<le> 0"
    then obtain x y where "a = metric x" "b = metric y" using mem by blast
    then show "ranks_before es latencyOf (route a) (route b)" using le rank route by simp
  qed
  then show ?thesis by (simp add: ranked_routes_def sorted_wrt_map ms_def)
qed

subsection \<open>The routing table\<close>

lemma update_skip_prefix:
  "k \<notin> fst ` set xs \<Longrightarrow> AList.update k v (xs @ ys) = xs @ AList.update k v ys"
  by (induction xs) auto

lemma fold_optimize_peer:
  "distinct (map fst (done @ todo)) \<Longrightarrow>
   fold (optimize_peer es latencyOf stab) todo
     (map (\<lambda>(k, rs). (k, ranked_routes es latencyOf stab rs)) done @ todo)
   = map (\<lambda>(k, rs). (k, ranked_routes es latencyOf stab rs)) (done @ todo)"
proof (induction todo arbitrary: "done")
  case Nil
  show ?case by simp
next
  case (Cons e todo)
  obtain k rs where e: "e = (k, rs)" by (cases e)
  define g :: "string \<times> string list \<Rightarrow> string \<times> string list"
    where "g = (\<lambda>(k, rs). (k, ranked_routes es latencyOf stab rs))"
  have k: "k \<notin> fst ` set (map g done)" using Cons.prems e by (force simp: g_def)
  have "optimize_peer es latencyOf stab e (map g done @ e # todo)
      = map g done @ g e # todo"
    using update_skip_prefix [OF k] by (simp add: optimize_peer_def e g_def)
  also have "\<dots> = map g (done @ [e]) @ todo" by simp
  finally have step: "optimize_peer es latencyOf stab e (map g done @ e # todo) = map g (done @ [e]) @ todo" .
  have d: "distinct (map fst ((done @ [e]) @ todo))" using Cons.prems by simp
  have "fold (optimize_peer es latencyOf stab) todo (map g (done @ [e]) @ todo) = map g ((done @ [e]) @ todo)"
    using Cons.IH [OF d] by (simp add: g_def)
  then show ?case using step by (simp add: g_def)
qed

lemma optimizeRoutes_map:
  assumes "distinct (map fst table)"
  shows "optimizeRoutes es latencyOf stab table =
     map (\<lambda>(k, rs). (k, ranked_routes es latencyOf stab rs)) table"
  using fold_optimize_peer [of "[]" table es latencyOf stab] assms
  by (simp add: optimizeRoutes_def)

lemma map_of_optimizeRoutes:
  assumes "distinct (map fst table)" "map_of table peerId = Some rs"
  shows "map_of (optimizeRoutes es latencyOf stab table) peerId = Some (ranked_routes es latencyOf stab rs)"
proof -
  have "map_of (map (\<lambda>(k, rs). (k, ranked_routes es latencyOf stab rs)) table) peerId
      = map_option (ranked_routes es latencyOf stab) (map_of table peerId)"
    by (induction table) auto
  then show ?thesis using assms by (simp add: optimizeRoutes_map)
qed

subsection \<open>The ranking that \<^verbatim>\<open>optimizeRoutes\<close> leaves\<close>

lemma compare_metrics_tied:
  assumes "\<bar>strength b - strength a\<bar> \<le> 9 / 100"
  shows "compare_metrics a b < 0 \<longleftrightarrow> latency a < latency b"
    and "0 \<le> compare_metrics a b \<longleftrightarrow> latency b \<le> latency a"
proof -
  have eq: "compare_metrics a b = double_sub (latency a) (latency b)"
    using strengths_tied [OF assms] by (simp add: compare_metrics_def Let_def)
  show "compare_metrics a b < 0 \<longleftrightarrow> latency a < latency b"
    using double_sub_sign [of "latency a" "latency b"] by (simp add: eq)
  then show "0 \<le> compare_metrics a b \<longleftrightarrow> latency b \<le> latency a" by linarith
qed

lemma compare_metrics_apart:
  assumes "\<bar>strength b - strength a\<bar> \<ge> 11 / 100"
  shows "compare_metrics a b < 0 \<longleftrightarrow> strength b < strength a"
    and "0 \<le> compare_metrics a b \<longleftrightarrow> strength a \<le> strength b"
proof -
  have eq: "compare_metrics a b = double_sub (strength b) (strength a)"
    using strengths_apart [OF assms] by (simp add: compare_metrics_def Let_def)
  show "compare_metrics a b < 0 \<longleftrightarrow> strength b < strength a"
    using double_sub_sign [of "strength b" "strength a"] by (simp add: eq)
  then show "0 \<le> compare_metrics a b \<longleftrightarrow> strength a \<le> strength b" by linarith
qed

lemma example_doubles_close:
  fixes u v :: real
  assumes "\<bar>u - 81 / 100\<bar> \<le> \<bar>81 / 100\<bar> / 10000" and "\<bar>v - 79 / 100\<bar> \<le> \<bar>79 / 100\<bar> / 10000"
  shows "\<bar>v - u\<bar> \<le> 9 / 100"
  using assms by linarith

lemma example_strengths_tied:
  "\<not> \<bar>double_sub (strength_get example_strengths ''r30'') (strength_get example_strengths ''r50'')\<bar>
       > double_round (1 / 10)"
proof (rule strengths_tied)
  have s50: "strength_get example_strengths ''r50'' = double_round (81 / 100)"
    by (simp add: example_strengths_def strength_get_def)
  have s30: "strength_get example_strengths ''r30'' = double_round (79 / 100)"
    by (simp add: example_strengths_def strength_get_def)
  have "\<bar>double_round (79 / 100) - double_round (81 / 100)\<bar> \<le> 9 / 100"
    by (rule example_doubles_close [OF double_round_close double_round_close])
  then show "\<bar>strength_get example_strengths ''r30'' - strength_get example_strengths ''r50''\<bar> \<le> 9 / 100"
    by (simp only: s50 s30)
qed

lemma spread_transitive: "rule_transitive spread_strengths cycle_latency [''b'', ''a'', ''c'']"
  by (simp add: rule_transitive_def ranks_before_def strengths_apart strengths_tied
      spread_strengths_def cycle_latency_def strength_get_def)

lemma spread_ranked:
  "ranked_routes spread_strengths cycle_latency 1 [''b'', ''a'', ''c''] = [''a'', ''b'', ''c'']"
proof -
  have "array_sort compare_metrics (route_metrics spread_strengths cycle_latency 1 [''b'', ''a'', ''c''])
      = route_metrics spread_strengths cycle_latency 1 [''a'', ''b'', ''c'']"
    by (simp add: array_sort_def BinaryInsertionSort_def insert_pivot_def binary_search.simps
        route_metrics_def Let_def
        compare_metrics_apart spread_strengths_def cycle_latency_def strength_get_def)
  then show ?thesis by (simp add: ranked_routes_def route_metrics_def)
qed

lemma ranked_two_routes:
  "ranked_routes es latencyOf stab [r1, r2] =
     (if ranks_before es latencyOf r1 r2 then [r1, r2] else [r2, r1])"
proof -
  define m1 where "m1 = \<lparr>route = r1, strength = strength_get es r1, latency = latencyOf r1, stability = stab\<rparr>"
  define m2 where "m2 = \<lparr>route = r2, strength = strength_get es r2, latency = latencyOf r2, stability = stab\<rparr>"
  have "compare_metrics m2 m1 = - compare_metrics m1 m2" by (rule compare_metrics_swap)
  moreover have "compare_metrics m1 m2 \<le> 0 \<longleftrightarrow> ranks_before es latencyOf r1 r2"
    unfolding m1_def m2_def by (rule compare_metrics_ranks)
  ultimately have c: "compare_metrics m2 m1 < 0 \<longleftrightarrow> \<not> ranks_before es latencyOf r1 r2" by linarith
  have "array_sort compare_metrics [m1, m2] = (if compare_metrics m2 m1 < 0 then [m2, m1] else [m1, m2])"
    by (simp add: array_sort_def BinaryInsertionSort_def Let_def)
  then have "map route (array_sort compare_metrics [m1, m2])
      = (if ranks_before es latencyOf r1 r2 then [r1, r2] else [r2, r1])"
    using c by (simp add: m1_def m2_def)
  then show ?thesis by (simp add: ranked_routes_def route_metrics_def m1_def m2_def)
qed

text \<open>
  C8 (as amended).  \<^verbatim>\<open>optimizeRoutes\<close> replaces the route list of every peer by a
  reordering of it that follows the comparator's rule for every pair of routes, whenever
  that rule is transitive on the peer's routes, as it always is for one or two routes.  By
  the rule a route is before another one if it is the stronger of the two where the
  difference of the strengths, computed in floating point, exceeds 0.1, and if its latency
  is not the higher one otherwise.  Two routes keep their order if the first is before the
  second by the rule, and are swapped if not.  For two routes of strengths 0.81 and 0.79
  and latencies 50 and 30 the route of latency 30 is first.
\<close>

theorem optimizeRoutes_ranked:
  assumes "distinct (map fst table)" and "map_of table peerId = Some rs"
    and "length rs \<le> 2 \<or> rule_transitive es latencyOf rs"
  shows "\<exists>rs'. map_of (optimizeRoutes es latencyOf stab table) peerId = Some rs'
           \<and> mset rs' = mset rs
           \<and> sorted_wrt (ranks_before es latencyOf) rs'
           \<and> (\<forall>r1 r2. rs = [r1, r2] \<longrightarrow>
                rs' = (if ranks_before es latencyOf r1 r2 then [r1, r2] else [r2, r1]))"
proof (intro exI conjI allI impI)
  show "map_of (optimizeRoutes es latencyOf stab table) peerId = Some (ranked_routes es latencyOf stab rs)"
    by (rule map_of_optimizeRoutes [OF assms(1) assms(2)])
  show "mset (ranked_routes es latencyOf stab rs) = mset rs"
    by (rule mset_ranked_routes)
  have "rule_transitive es latencyOf rs"
    using assms(3) rule_transitive_short [of rs es latencyOf] by blast
  then show "sorted_wrt (ranks_before es latencyOf) (ranked_routes es latencyOf stab rs)"
    by (rule ranked_routes_sorted)
  fix r1 r2 assume "rs = [r1, r2]"
  then show "ranked_routes es latencyOf stab rs
      = (if ranks_before es latencyOf r1 r2 then [r1, r2] else [r2, r1])"
    by (simp only: ranked_two_routes)
qed

theorem optimizeRoutes_ranked_witness:
  "distinct (map fst [(''peer'', [''r50'', ''r30''])])
   \<and> map_of [(''peer'', [''r50'', ''r30''])] ''peer'' = Some [''r50'', ''r30'']
   \<and> length [''r50'', ''r30''] \<le> 2
   \<and> example_latency ''r50'' = 50 \<and> example_latency ''r30'' = 30
   \<and> map_of (optimizeRoutes example_strengths example_latency 1 [(''peer'', [''r50'', ''r30''])]) ''peer''
       = Some [''r30'', ''r50'']
   \<and> distinct (map fst [(''peer'', [''b'', ''a'', ''c''])])
   \<and> map_of [(''peer'', [''b'', ''a'', ''c''])] ''peer'' = Some [''b'', ''a'', ''c'']
   \<and> rule_transitive spread_strengths cycle_latency [''b'', ''a'', ''c'']
   \<and> map_of (optimizeRoutes spread_strengths cycle_latency 1 [(''peer'', [''b'', ''a'', ''c''])]) ''peer''
       = Some [''a'', ''b'', ''c'']
   \<and> sorted_wrt (ranks_before spread_strengths cycle_latency) [''a'', ''b'', ''c'']"
proof -
  have tie: "\<not> ranks_before example_strengths example_latency ''r50'' ''r30''"
    using example_strengths_tied by (simp add: ranks_before_def example_latency_def)
  have two: "map_of (optimizeRoutes example_strengths example_latency 1 [(''peer'', [''r50'', ''r30''])]) ''peer''
       = Some [''r30'', ''r50'']"
    using optimizeRoutes_ranked
      [where table = "[(''peer'', [''r50'', ''r30''])]" and peerId = "''peer''"
         and rs = "[''r50'', ''r30'']" and es = example_strengths and latencyOf = example_latency
         and stab = 1]
      tie
    by auto
  obtain ranked3 where ranked3:
    "map_of (optimizeRoutes spread_strengths cycle_latency 1 [(''peer'', [''b'', ''a'', ''c''])]) ''peer''
       = Some ranked3"
    "sorted_wrt (ranks_before spread_strengths cycle_latency) ranked3"
    using optimizeRoutes_ranked
      [where table = "[(''peer'', [''b'', ''a'', ''c''])]" and peerId = "''peer''"
         and rs = "[''b'', ''a'', ''c'']" and es = spread_strengths and latencyOf = cycle_latency
         and stab = 1]
      spread_transitive
    by auto
  have "map_of (optimizeRoutes spread_strengths cycle_latency 1 [(''peer'', [''b'', ''a'', ''c''])]) ''peer''
       = Some (ranked_routes spread_strengths cycle_latency 1 [''b'', ''a'', ''c''])"
    by (rule map_of_optimizeRoutes) simp_all
  then have three: "map_of (optimizeRoutes spread_strengths cycle_latency 1 [(''peer'', [''b'', ''a'', ''c''])]) ''peer''
       = Some [''a'', ''b'', ''c'']"
    by (simp only: spread_ranked)
  then have "ranked3 = [''a'', ''b'', ''c'']" using ranked3(1) by simp
  then have sorted3: "sorted_wrt (ranks_before spread_strengths cycle_latency) [''a'', ''b'', ''c'']"
    using ranked3(2) by simp
  show ?thesis using two three sorted3 spread_transitive by (simp add: example_latency_def)
qed

text \<open>
  Against C8 as stated: for three routes of strengths 1, 0.9375 and 0.875 and latencies 30,
  20 and 10 the ranking of the claim is cyclic (\<^verbatim>\<open>b\<close> before \<^verbatim>\<open>a\<close> and \<^verbatim>\<open>c\<close> before \<^verbatim>\<open>b\<close> by
  latency, \<^verbatim>\<open>a\<close> before \<^verbatim>\<open>c\<close> by strength).  The routes come out as \<^verbatim>\<open>c\<close>, \<^verbatim>\<open>b\<close>, \<^verbatim>\<open>a\<close>, the
  weakest one first and well behind the strongest in strength, and no order of the three
  routes follows the claim's ranking for every pair.
\<close>

theorem optimizeRoutes_cycle_counterexample:
  "routes_get (optimizeRoutes cycle_strengths cycle_latency 1 [(''peer'', [''a'', ''b'', ''c''])]) ''peer''
     = [''c'', ''b'', ''a'']
   \<and> \<not> sorted_wrt (specified_order cycle_strengths cycle_latency) [''a'', ''b'', ''c'']
   \<and> \<not> sorted_wrt (specified_order cycle_strengths cycle_latency) [''a'', ''c'', ''b'']
   \<and> \<not> sorted_wrt (specified_order cycle_strengths cycle_latency) [''b'', ''a'', ''c'']
   \<and> \<not> sorted_wrt (specified_order cycle_strengths cycle_latency) [''b'', ''c'', ''a'']
   \<and> \<not> sorted_wrt (specified_order cycle_strengths cycle_latency) [''c'', ''a'', ''b'']
   \<and> \<not> sorted_wrt (specified_order cycle_strengths cycle_latency) [''c'', ''b'', ''a'']"
proof -
  have "array_sort compare_metrics (route_metrics cycle_strengths cycle_latency 1 [''a'', ''b'', ''c''])
      = route_metrics cycle_strengths cycle_latency 1 [''c'', ''b'', ''a'']"
    by (simp add: array_sort_def BinaryInsertionSort_def route_metrics_def Let_def
        compare_metrics_tied cycle_strengths_def cycle_latency_def strength_get_def)
  then have "ranked_routes cycle_strengths cycle_latency 1 [''a'', ''b'', ''c''] = [''c'', ''b'', ''a'']"
    by (simp add: ranked_routes_def route_metrics_def)
  then have "routes_get (optimizeRoutes cycle_strengths cycle_latency 1 [(''peer'', [''a'', ''b'', ''c''])]) ''peer''
     = [''c'', ''b'', ''a'']"
    by (simp add: optimizeRoutes_def optimize_peer_def routes_get_def)
  moreover have "\<not> sorted_wrt (specified_order cycle_strengths cycle_latency) [''a'', ''b'', ''c'']"
    by (simp add: specified_order_def cycle_strengths_def cycle_latency_def strength_get_def)
  moreover have "\<not> sorted_wrt (specified_order cycle_strengths cycle_latency) [''a'', ''c'', ''b'']"
    by (simp add: specified_order_def cycle_strengths_def cycle_latency_def strength_get_def)
  moreover have "\<not> sorted_wrt (specified_order cycle_strengths cycle_latency) [''b'', ''a'', ''c'']"
    by (simp add: specified_order_def cycle_strengths_def cycle_latency_def strength_get_def)
  moreover have "\<not> sorted_wrt (specified_order cycle_strengths cycle_latency) [''b'', ''c'', ''a'']"
    by (simp add: specified_order_def cycle_strengths_def cycle_latency_def strength_get_def)
  moreover have "\<not> sorted_wrt (specified_order cycle_strengths cycle_latency) [''c'', ''a'', ''b'']"
    by (simp add: specified_order_def cycle_strengths_def cycle_latency_def strength_get_def)
  moreover have "\<not> sorted_wrt (specified_order cycle_strengths cycle_latency) [''c'', ''b'', ''a'']"
    by (simp add: specified_order_def cycle_strengths_def cycle_latency_def strength_get_def)
  ultimately show ?thesis by simp
qed

section \<open>Properties of the transmission handler\<close>

subsection \<open>Compression\<close>

text \<open>
  C5.  Decompressing what was compressed never yields the content back: for every content,
  string or buffer, empty or not, \<^verbatim>\<open>_decompressTransmission\<close> raises, because the
  decompressor it awaits is bound to no function.
\<close>

theorem decompress_compress_raises:
  "decompressTransmission rt (compressTransmission rt c) = Inl TypeError"
  by (simp add: decompressTransmission_def ungzipAsync_def)

theorem decompress_compress_raises_witness:
  "decompressTransmission sample_runtime (compressTransmission sample_runtime (Text ''hello''))
     \<noteq> Inr ''hello''
   \<and> decompressTransmission sample_runtime (compressTransmission sample_runtime (Bytes []))
     \<noteq> Inr []"
  using decompress_compress_raises [of sample_runtime "Text ''hello''"]
    decompress_compress_raises [of sample_runtime "Bytes []"]
  by simp

subsection \<open>Signatures\<close>

lemma verify_stored_consciousness_raises:
  "TransmissionHandler_verifyQuantumSignature rt idn (t\<lparr>in_consciousness := Level x\<rparr>) noise = Inl TypeError"
  by (simp add: TransmissionHandler_verifyQuantumSignature_def
      TransmissionHandler_generateQuantumSignature_def signatureInput_def)

lemma signatureInput_noise:
  "signatureInput rt c (State l r) noise = signatureInput rt c (State l r) noise' \<longleftrightarrow> noise = noise'"
  by (simp add: signatureInput_def)

text \<open>
  C2.  Verification does not accept the tag that signing produced: it signs again with
  the 16 random bytes it draws itself, so the recomputed tag is the tag of other material,
  and whenever the two tags differ the genuine tag is rejected.  No timestamp and no
  replay window take part.
\<close>

theorem verify_rejects_genuine_tag:
  assumes "TransmissionHandler_generateQuantumSignature rt idn c cs noise = Inr tag"
    and "TransmissionHandler_generateQuantumSignature rt idn c cs noise' = Inr tag'"
    and "tag \<noteq> tag'"
  shows "TransmissionHandler_verifyQuantumSignature rt idn
           (t\<lparr>in_content := c, in_consciousness := cs, in_signature := tag\<rparr>) noise' = Inr False"
  using assms by (simp add: TransmissionHandler_verifyQuantumSignature_def)

theorem verify_rejects_genuine_tag_witness:
  "TransmissionHandler_generateQuantumSignature sample_runtime sample_identity (Text ''hello'')
      (State 0.5 0.5) ''noise-1'' = Inr ''node0|hello0.50.5noise-1''
   \<and> TransmissionHandler_generateQuantumSignature sample_runtime sample_identity (Text ''hello'')
      (State 0.5 0.5) ''noise-2'' = Inr ''node0|hello0.50.5noise-2''
   \<and> ''node0|hello0.50.5noise-1'' \<noteq> ''node0|hello0.50.5noise-2''
   \<and> TransmissionHandler_verifyQuantumSignature sample_runtime sample_identity
      (sample_incoming ''node0|hello0.50.5noise-1'') ''noise-2'' = Inr False"
proof -
  have g1: "TransmissionHandler_generateQuantumSignature sample_runtime sample_identity (Text ''hello'')
      (State 0.5 0.5) ''noise-1'' = Inr ''node0|hello0.50.5noise-1''"
    by (simp add: TransmissionHandler_generateQuantumSignature_def signatureInput_def
        sample_runtime_def sample_identity_def)
  have g2: "TransmissionHandler_generateQuantumSignature sample_runtime sample_identity (Text ''hello'')
      (State 0.5 0.5) ''noise-2'' = Inr ''node0|hello0.50.5noise-2''"
    by (simp add: TransmissionHandler_generateQuantumSignature_def signatureInput_def
        sample_runtime_def sample_identity_def)
  have n: "''node0|hello0.50.5noise-1'' \<noteq> ''node0|hello0.50.5noise-2''" by simp
  have "TransmissionHandler_verifyQuantumSignature sample_runtime sample_identity
      (sample_incoming ''node0|hello0.50.5noise-1'') ''noise-2'' = Inr False"
    using verify_rejects_genuine_tag [OF g1 g2 n, of "sample_incoming ''node0|hello0.50.5noise-1''"]
    by (simp add: sample_incoming_def)
  then show ?thesis using g1 g2 n by blast
qed

subsection \<open>The resonance gate\<close>



subsection \<open>Buffer capacities\<close>













end
